theory Spec2Isabelle
  imports Main
begin

section \<open>Python string primitives used by pam\_limits.py\<close>

text \<open>
  The module is Python 2 code: a line read from the file is a byte string, so a
  character is a byte. The whitespace class of \<^verbatim>\<open>\s\<close> and of
  \<^verbatim>\<open>str.strip()\<close> is then space, tab, newline, carriage return, form feed and
  vertical tab.
\<close>

abbreviation TAB :: char where "TAB \<equiv> CHR 0x09"
abbreviation NL :: char where "NL \<equiv> CHR 0x0A"

definition is_space :: "char \<Rightarrow> bool" where
  "is_space c \<longleftrightarrow>
     c = CHR '' '' \<or> c = TAB \<or> c = NL \<or> c = CHR 0x0D \<or> c = CHR 0x0C \<or> c = CHR 0x0B"

text \<open>\<^verbatim>\<open>for line in f\<close>: the content is cut after every newline, each line keeps its
  terminator, and only the last line may lack one.\<close>

fun readlines :: "string \<Rightarrow> string list" where
  "readlines [] = []"
| "readlines (c # cs) =
     (if c = NL then [c] # readlines cs
      else (case readlines cs of [] \<Rightarrow> [[c]] | l # ls \<Rightarrow> (c # l) # ls))"

text \<open>\<^verbatim>\<open>s.startswith(p)\<close>\<close>

fun startswith :: "string \<Rightarrow> string \<Rightarrow> bool" where
  "startswith s [] = True"
| "startswith [] (p # ps) = False"
| "startswith (c # cs) (p # ps) = (c = p \<and> startswith cs ps)"

text \<open>\<^verbatim>\<open>re.sub(re.compile(r'\s+'), ' ', s)\<close>: every maximal run of whitespace
  becomes one space.\<close>

function sub_space :: "string \<Rightarrow> string" where
  "sub_space [] = []"
| "sub_space (c # cs) =
     (if is_space c then CHR '' '' # sub_space (dropWhile is_space cs)
      else c # sub_space cs)"
  by pat_completeness auto
termination
  by (relation "measure length") (auto simp: less_Suc_eq_le length_dropWhile_le)

text \<open>\<^verbatim>\<open>s.rstrip()\<close>, \<^verbatim>\<open>s.strip()\<close>\<close>

definition rstrip :: "string \<Rightarrow> string" where
  "rstrip s = rev (dropWhile is_space (rev s))"

definition strip :: "string \<Rightarrow> string" where
  "strip s = rstrip (dropWhile is_space s)"

text \<open>\<^verbatim>\<open>s.split('#', 1)[0]\<close> is the text before the first hash (all of \<open>s\<close> when
  there is none). \<^verbatim>\<open>s.split('#', 1)[1]\<close> is the text after the first hash and raises
  IndexError when there is none; the source catches that and takes the empty string.\<close>

definition before_hash :: "string \<Rightarrow> string" where
  "before_hash s = takeWhile (\<lambda>c. c \<noteq> CHR ''#'') s"

definition after_hash :: "string \<Rightarrow> string" where
  "after_hash s = (case dropWhile (\<lambda>c. c \<noteq> CHR ''#'') s of [] \<Rightarrow> [] | h # r \<Rightarrow> r)"

text \<open>\<^verbatim>\<open>s.split(' ')\<close>: cut at every single space, empty fields are kept, so the
  result is never the empty list.\<close>

fun split_space :: "string \<Rightarrow> string list" where
  "split_space [] = [[]]"
| "split_space (c # cs) =
     (if c = CHR '' '' then [] # split_space cs
      else (case split_space cs of [] \<Rightarrow> [[c]] | f # fs \<Rightarrow> (c # f) # fs))"

text \<open>\<^verbatim>\<open>int(s)\<close> on a byte string: surrounding whitespace is dropped, then an optional
  sign and at least one decimal digit; anything else raises ValueError (\<open>None\<close>).
  Python integers are unbounded. The loop only passes fields cut at spaces out of a line
  whose whitespace has all been turned into spaces, so \<open>s\<close> never has whitespace
  inside.\<close>

definition is_digit :: "char \<Rightarrow> bool" where
  "is_digit c \<longleftrightarrow> (48::int) \<le> of_char c \<and> (of_char c :: int) \<le> 57"

fun digits_value :: "int \<Rightarrow> string \<Rightarrow> int" where
  "digits_value acc [] = acc"
| "digits_value acc (c # cs) = digits_value (10 * acc + (of_char c - 48)) cs"

definition unsigned_py :: "string \<Rightarrow> int option" where
  "unsigned_py s = (if s \<noteq> [] \<and> list_all is_digit s then Some (digits_value 0 s) else None)"

definition int_py :: "string \<Rightarrow> int option" where
  "int_py s =
     (case strip s of
        [] \<Rightarrow> None
      | c # r \<Rightarrow>
          if c = CHR ''-'' then map_option uminus (unsigned_py r)
          else if c = CHR ''+'' then unsigned_py r
          else unsigned_py (c # r))"

text \<open>\<^verbatim>\<open>str(n)\<close> for an integer: decimal digits, a minus sign when negative.\<close>

function str_digits :: "int \<Rightarrow> string" where
  "str_digits n =
     (if n < 10 then [char_of (48 + n)]
      else str_digits (n div 10) @ [char_of (48 + n mod 10)])"
  by pat_completeness auto
termination
  by (relation "measure nat") auto

declare str_digits.simps [simp del]

definition str_py :: "int \<Rightarrow> string" where
  "str_py i = (if i < 0 then CHR ''-'' # str_digits (- i) else str_digits i)"

section \<open>The module parameters and the loop state of main\<close>

text \<open>\<^verbatim>\<open>module.params\<close>, after AnsibleModule has checked the argument
  specification (that part is Ansible's, not this module's).\<close>

record params =
  domain :: string
  limit_type :: string
  limit_item :: string
  value_arg :: int
  use_max :: bool
  use_min :: bool
  backup :: bool
  dest :: string
  comment :: string

text \<open>The \<^verbatim>\<open>choices\<close> of the argument specification: \<^verbatim>\<open>pam_items\<close> and
  \<^verbatim>\<open>pam_types\<close>. AnsibleModule accepts a request only if its \<open>limit_type\<close> and
  \<open>limit_item\<close> are among them; \<open>domain\<close> and \<open>comment\<close> are any strings.\<close>

definition pam_items :: "string list" where
  "pam_items =
     [''core'', ''data'', ''fsize'', ''memlock'', ''nofile'', ''rss'', ''stack'', ''cpu'',
      ''nproc'', ''as'', ''maxlogins'', ''maxsyslogins'', ''priority'', ''locks'',
      ''sigpending'', ''msgqueue'', ''nice'', ''rtprio'', ''chroot'']"

definition pam_types :: "string list" where
  "pam_types = [''soft'', ''hard'', ''-'']"

definition argument_spec :: "params \<Rightarrow> bool" where
  "argument_spec p \<longleftrightarrow> limit_type p \<in> set pam_types \<and> limit_item p \<in> set pam_items"

text \<open>The local variables of \<^verbatim>\<open>main\<close> that the loop reads and assigns. \<open>nf\<close> is the
  temporary file, kept as the list of strings written to it, in order; its content is
  their concatenation.\<close>

record locals =
  changed :: bool
  message :: string
  found :: bool
  has_eof :: bool
  new_value :: int
  new_comment :: string
  nf :: "string list"

definition nf_write :: "string \<Rightarrow> locals \<Rightarrow> locals" where
  "nf_write s st = st\<lparr>nf := nf st @ [s]\<rparr>"

definition init_locals :: "params \<Rightarrow> locals" where
  "init_locals p =
     \<lparr>changed = False, message = [], found = False, has_eof = False,
      new_value = value_arg p, new_comment = comment p, nf = []\<rparr>"

text \<open>\<^verbatim>\<open>domain + "\t" + limit_type + "\t" + limit_item + "\t" + str(new_value)
  + new_comment + "\n"\<close>\<close>

definition new_limit :: "params \<Rightarrow> int \<Rightarrow> string \<Rightarrow> string" where
  "new_limit p v c =
     domain p @ [TAB] @ limit_type p @ [TAB] @ limit_item p @ [TAB] @ str_py v @ c @ [NL]"

datatype py_exception = ValueError

section \<open>One iteration of the loop over the lines\<close>

text \<open>The expressions the loop body computes from the line alone.\<close>

definition normalized :: "string \<Rightarrow> string" where
  "normalized line = strip (sub_space line)"

definition line_fields :: "string \<Rightarrow> string list" where
  "line_fields line = split_space (rstrip (before_hash (normalized line)))"

definition old_comment :: "string \<Rightarrow> string" where
  "old_comment line = after_hash line"

text \<open>The two assignments to \<open>new_comment\<close> that every line reaching them performs:
  \<^verbatim>\<open>if not new_comment: new_comment = old_comment\<close> and
  \<^verbatim>\<open>if new_comment: new_comment = "\t#" + new_comment\<close>. The variable is not reset
  between iterations.\<close>

definition update_comment :: "string \<Rightarrow> locals \<Rightarrow> locals" where
  "update_comment line st =
     (let c1 = (if new_comment st = [] then old_comment line else new_comment st);
          c2 = (if c1 \<noteq> [] then [TAB, CHR ''#''] @ c1 else c1)
      in st\<lparr>new_comment := c2\<rparr>)"

definition key_matches :: "params \<Rightarrow> string list \<Rightarrow> bool" where
  "key_matches p fs \<longleftrightarrow>
     fs ! 0 = domain p \<and> fs ! 1 = limit_type p \<and> fs ! 2 = limit_item p"

text \<open>The branch taken once the line's key equals the requested key.\<close>

definition found_line :: "params \<Rightarrow> string \<Rightarrow> int \<Rightarrow> locals \<Rightarrow> locals" where
  "found_line p line actual_value st0 =
     (let st1 = st0\<lparr>found := True\<rparr> in
      if value_arg p = actual_value then nf_write line (st1\<lparr>message := line\<rparr>)
      else
        let st2 = (if use_max p then st1\<lparr>new_value := max (value_arg p) actual_value\<rparr> else st1);
            st3 = (if use_min p then st2\<lparr>new_value := min (value_arg p) actual_value\<rparr> else st2)
        in if new_value st3 \<noteq> actual_value then
             (let l = new_limit p (new_value st3) (new_comment st3)
              in nf_write l (st3\<lparr>changed := True, message := l\<rparr>))
           else nf_write line (st3\<lparr>message := line\<rparr>))"

definition step :: "params \<Rightarrow> string \<Rightarrow> locals \<Rightarrow> py_exception + locals" where
  "step p line st =
     (if startswith line ''# End of file'' then Inr (st\<lparr>has_eof := True\<rparr>)
      else if startswith line ''#'' then Inr (nf_write line st)
      else if normalized line = [] then Inr (nf_write line st)
      else
        let st1 = update_comment line st;
            fs = line_fields line
        in if length fs \<noteq> 4 then Inr (nf_write line st1)
           else (case int_py (fs ! 3) of
                   None \<Rightarrow> Inl ValueError
                 | Some actual_value \<Rightarrow>
                     if key_matches p fs then Inr (found_line p line actual_value st1)
                     else Inr (nf_write line st1)))"

fun loop :: "params \<Rightarrow> string list \<Rightarrow> locals \<Rightarrow> py_exception + locals" where
  "loop p [] st = Inr st"
| "loop p (line # ls) st =
     (case step p line st of Inl e \<Rightarrow> Inl e | Inr st' \<Rightarrow> loop p ls st')"

section \<open>After the loop, and main\<close>

definition after_loop :: "params \<Rightarrow> locals \<Rightarrow> locals" where
  "after_loop p st =
     (let st1 = (if \<not> found st then
                   (let l = new_limit p (new_value st) (new_comment st)
                    in nf_write l (st\<lparr>changed := True, message := l\<rparr>))
                 else st)
      in if has_eof st1 then nf_write ''# End of file'' st1 else st1)"

text \<open>What \<^verbatim>\<open>main\<close> sees of the machine: whether \<open>dest\<close> is a regular file, whether it
  is writable, its content, and the snapshots \<^verbatim>\<open>module.backup_local\<close> has taken.\<close>

record filesystem =
  is_file :: bool
  writable :: bool
  content :: string
  backups :: "string list"

datatype outcome =
    fail_json string
  | raised py_exception
  | exit_json bool string bool

text \<open>The pass over the lines of the file followed by the two statements after the loop;
  \<open>reconcile\<close> is that pass on the lines of a file's content.\<close>

definition process_lines :: "params \<Rightarrow> string list \<Rightarrow> py_exception + locals" where
  "process_lines p ls = map_sum id (after_loop p) (loop p ls (init_locals p))"

definition reconcile :: "params \<Rightarrow> string \<Rightarrow> py_exception + locals" where
  "reconcile p text = process_lines p (readlines text)"

definition main :: "params \<Rightarrow> filesystem \<Rightarrow> outcome \<times> filesystem" where
  "main p fs =
     (if \<not> is_file fs then
        (fail_json (dest p @ '' is not visible (check presence, access rights, use sudo)''), fs)
      else if \<not> writable fs then (fail_json (dest p @ '' is not writable. Use sudo''), fs)
      else if use_max p \<and> use_min p then
        (fail_json ''Cannot use use_min and use_max at the same time.'', fs)
      else
        let fs1 = (if backup p then fs\<lparr>backups := backups fs @ [content fs]\<rparr> else fs)
        in (case reconcile p (content fs1) of
              Inl e \<Rightarrow> (raised e, fs1)
            | Inr st \<Rightarrow>
                (exit_json (changed st) (message st) (backup p),
                 fs1\<lparr>content := concat (nf st)\<rparr>)))"

section \<open>The branch conditions of the loop body, by line\<close>

text \<open>The tests the loop body applies to a line, in its order: the end-of-file marker,
  a comment, a line that is empty once normalised, a line whose field count is not 4, and
  a line of 4 fields whose last field \<^verbatim>\<open>int\<close> accepts.\<close>

definition is_sentinel_line :: "string \<Rightarrow> bool" where
  "is_sentinel_line line \<longleftrightarrow> startswith line ''# End of file''"

definition is_comment_line :: "string \<Rightarrow> bool" where
  "is_comment_line line \<longleftrightarrow> \<not> startswith line ''# End of file'' \<and> startswith line ''#''"

definition is_blank_line :: "string \<Rightarrow> bool" where
  "is_blank_line line \<longleftrightarrow> \<not> startswith line ''#'' \<and> normalized line = []"

definition has_fields :: "string \<Rightarrow> bool" where
  "has_fields line \<longleftrightarrow> \<not> startswith line ''#'' \<and> normalized line \<noteq> []"

definition is_malformed_line :: "string \<Rightarrow> bool" where
  "is_malformed_line line \<longleftrightarrow> has_fields line \<and> length (line_fields line) \<noteq> 4"

definition record_value :: "string \<Rightarrow> int option" where
  "record_value line =
     (if has_fields line \<and> length (line_fields line) = 4 then int_py (line_fields line ! 3)
      else None)"

definition bad_value_line :: "string \<Rightarrow> bool" where
  "bad_value_line line \<longleftrightarrow>
     has_fields line \<and> length (line_fields line) = 4 \<and> int_py (line_fields line ! 3) = None"

definition passes_through :: "params \<Rightarrow> string \<Rightarrow> bool" where
  "passes_through p line \<longleftrightarrow>
     is_comment_line line \<or> is_blank_line line \<or> is_malformed_line line \<or>
     (record_value line \<noteq> None \<and> \<not> key_matches p (line_fields line))"

text \<open>Two predicates for the statements below: a line the loop takes for the requested
  record, and a string that ends in a newline.\<close>

definition matching_line :: "params \<Rightarrow> string \<Rightarrow> bool" where
  "matching_line p line \<longleftrightarrow> record_value line \<noteq> None \<and> key_matches p (line_fields line)"

definition terminated :: "string \<Rightarrow> bool" where
  "terminated s \<longleftrightarrow> s \<noteq> [] \<and> last s = NL"

text \<open>For the lines of the output: a string that is one line (no newline but possibly
  at its end), a written string that ends in a newline and none of whose lines starts
  with the marker, a request whose rebuilt record starts a line of that kind, and a state
  all of whose written strings are of that kind and whose \<open>new_comment\<close> has no newline
  but possibly at its end.\<close>

definition one_line :: "string \<Rightarrow> bool" where
  "one_line s \<longleftrightarrow> s \<noteq> [] \<and> NL \<notin> set (butlast s)"

definition clean :: "string \<Rightarrow> bool" where
  "clean w \<longleftrightarrow> terminated w \<and> \<not> list_ex is_sentinel_line (readlines w)"

definition record_header_ok :: "params \<Rightarrow> bool" where
  "record_header_ok p \<longleftrightarrow>
     argument_spec p \<and> NL \<notin> set (domain p) \<and> \<not> is_sentinel_line (domain p)"

definition well_written :: "locals \<Rightarrow> bool" where
  "well_written st \<longleftrightarrow> list_all clean (nf st) \<and> NL \<notin> set (butlast (new_comment st))"

section \<open>Example inputs\<close>

definition joe_nofile :: params where
  "joe_nofile =
     \<lparr>domain = ''joe'', limit_type = ''soft'', limit_item = ''nofile'', value_arg = 64000,
      use_max = False, use_min = False, backup = False,
      dest = ''/etc/security/limits.conf'', comment = []\<rparr>"

definition limits_conf :: "string \<Rightarrow> filesystem" where
  "limits_conf text = \<lparr>is_file = True, writable = True, content = text, backups = []\<rparr>"

definition five_field_line :: string where
  "five_field_line = ''joe soft nofile 1024 extra'' @ [NL]"

definition keep_min_300 :: params where
  "keep_min_300 = joe_nofile\<lparr>value_arg := 300, use_min := True\<rparr>"

definition both_flags :: params where
  "both_flags = joe_nofile\<lparr>use_max := True, use_min := True\<rparr>"

definition unlimited_core :: string where
  "unlimited_core = ''* soft core unlimited'' @ [NL]"

definition joe_line :: "string \<Rightarrow> string" where
  "joe_line c = ''joe'' @ [TAB] @ ''soft'' @ [TAB] @ ''nofile'' @ [TAB] @ ''64000'' @ c @ [NL]"

definition two_sentinels_file :: string where
  "two_sentinels_file =
     ''# End of file'' @ [NL] @ ''joe soft nofile 500'' @ [NL] @
     ''# End of file (old)'' @ [NL] @ ''* hard core 0'' @ [NL]"

definition marker_domain :: params where
  "marker_domain = joe_nofile\<lparr>domain := ''# End of file''\<rparr>"

section \<open>Basic facts about one iteration\<close>

lemma sentinel_starts_with_hash: "startswith line ''# End of file'' \<Longrightarrow> startswith line ''#''"
  by (cases line) auto

lemma update_comment_fields [simp]:
  "changed (update_comment l st) = changed st"
  "found (update_comment l st) = found st"
  "message (update_comment l st) = message st"
  "has_eof (update_comment l st) = has_eof st"
  "new_value (update_comment l st) = new_value st"
  "nf (update_comment l st) = nf st"
  by (simp_all add: update_comment_def Let_def)

lemma nf_write_fields [simp]:
  "changed (nf_write l st) = changed st"
  "found (nf_write l st) = found st"
  "message (nf_write l st) = message st"
  "has_eof (nf_write l st) = has_eof st"
  "new_value (nf_write l st) = new_value st"
  "new_comment (nf_write l st) = new_comment st"
  "nf (nf_write l st) = nf st @ [l]"
  by (simp_all add: nf_write_def)

lemma step_passthrough:
  assumes "passes_through p line"
  shows "step p line st =
           Inr (nf_write line (if has_fields line then update_comment line st else st))"
  using assms sentinel_starts_with_hash [of line]
  by (auto simp: passes_through_def is_comment_line_def is_blank_line_def is_malformed_line_def
      record_value_def has_fields_def step_def Let_def split: option.splits if_splits)

lemma step_record:
  assumes "record_value line = Some a"
  shows "step p line st =
     Inr (if key_matches p (line_fields line) then found_line p line a (update_comment line st)
          else nf_write line (update_comment line st))"
  using assms sentinel_starts_with_hash [of line]
  by (auto simp: record_value_def has_fields_def step_def Let_def split: option.splits if_splits)

section \<open>The exact-match short circuit\<close>

text \<open>
  Claim C2. A line of 4 fields whose key is the requested key and whose value already
  equals the requested value is written back as it was read: the iteration appends the
  original line to the temporary file, leaves \<open>changed\<close> as it was, and leaves
  \<open>new_value\<close> as it was (no policy computation has run), whatever \<open>use_min\<close> and
  \<open>use_max\<close> are.
\<close>

theorem exact_match_short_circuit:
  assumes "record_value line = Some (value_arg p)"
    and "key_matches p (line_fields line)"
  shows "\<exists>st'. step p line st = Inr st' \<and> nf st' = nf st @ [line] \<and>
           changed st' = changed st \<and> new_value st' = new_value st \<and>
           found st' \<and> message st' = line \<and> has_eof st' = has_eof st"
  using assms by (simp add: step_record found_line_def)

theorem exact_match_short_circuit_witness:
  "record_value (''joe soft nofile 64000'' @ [NL]) = Some (value_arg (joe_nofile\<lparr>use_max := True\<rparr>)) \<and>
   key_matches (joe_nofile\<lparr>use_max := True\<rparr>) (line_fields (''joe soft nofile 64000'' @ [NL])) \<and>
   (\<exists>st'. step (joe_nofile\<lparr>use_max := True\<rparr>) (''joe soft nofile 64000'' @ [NL])
             (init_locals (joe_nofile\<lparr>use_max := True\<rparr>)) = Inr st' \<and>
          nf st' = nf (init_locals (joe_nofile\<lparr>use_max := True\<rparr>)) @ [''joe soft nofile 64000'' @ [NL]] \<and>
          changed st' = changed (init_locals (joe_nofile\<lparr>use_max := True\<rparr>)) \<and>
          new_value st' = new_value (init_locals (joe_nofile\<lparr>use_max := True\<rparr>)) \<and>
          found st' \<and> message st' = ''joe soft nofile 64000'' @ [NL] \<and>
          has_eof st' = has_eof (init_locals (joe_nofile\<lparr>use_max := True\<rparr>)))"
proof -
  have h1: "record_value (''joe soft nofile 64000'' @ [NL]) =
              Some (value_arg (joe_nofile\<lparr>use_max := True\<rparr>))"
    by code_simp
  have h2: "key_matches (joe_nofile\<lparr>use_max := True\<rparr>)
              (line_fields (''joe soft nofile 64000'' @ [NL]))"
    by code_simp
  from exact_match_short_circuit [OF h1 h2] h1 h2 show ?thesis
    by blast
qed

section \<open>The loop only appends to the temporary file\<close>

lemma loop_append:
  "loop p (xs @ ys) st = (case loop p xs st of Inl e \<Rightarrow> Inl e | Inr st' \<Rightarrow> loop p ys st')"
  by (induction xs arbitrary: st) (auto split: sum.splits)

lemma found_line_nf:
  "\<exists>w. nf (found_line p line a st) = nf st @ [w]"
  by (simp add: found_line_def Let_def)

lemma step_nf:
  assumes "step p line st = Inr st'"
  shows "\<exists>ws. nf st' = nf st @ ws"
  using assms found_line_nf [of p line _ "update_comment line st"]
  by (auto simp: step_def Let_def split: if_splits option.splits)

lemma loop_nf:
  "loop p ls st = Inr st' \<Longrightarrow> \<exists>ws. nf st' = nf st @ ws"
proof (induction ls arbitrary: st)
  case Nil
  then show ?case by simp
next
  case (Cons l ls)
  from Cons.prems obtain st1 where s: "step p l st = Inr st1" and r: "loop p ls st1 = Inr st'"
    by (auto split: sum.splits)
  from step_nf [OF s] obtain ws1 where "nf st1 = nf st @ ws1" ..
  moreover from Cons.IH [OF r] obtain ws2 where "nf st' = nf st1 @ ws2" ..
  ultimately show ?case by simp
qed

lemma rstrip_Cons: "\<not> is_space c \<Longrightarrow> rstrip (c # s) = c # rstrip s"
  by (simp add: rstrip_def dropWhile_append)

lemma hash_not_space: "\<not> is_space CHR ''#''"
  by (simp add: is_space_def)

lemma fields_of_hash_line:
  assumes "startswith line ''#''"
  shows "line_fields line = [[]]"
proof -
  from assms obtain r where l: "line = CHR ''#'' # r"
    by (cases line) auto
  have "normalized line = CHR ''#'' # rstrip (sub_space r)"
    by (simp add: l normalized_def strip_def hash_not_space rstrip_Cons)
  then show ?thesis
    by (simp add: line_fields_def before_hash_def rstrip_def)
qed

lemma fields_of_blank_line: "normalized line = [] \<Longrightarrow> line_fields line = [[]]"
  by (simp add: line_fields_def before_hash_def rstrip_def)

lemma many_fields_malformed:
  assumes "length (line_fields line) = 5"
  shows "is_malformed_line line"
  using assms fields_of_hash_line [of line] fields_of_blank_line [of line]
  by (auto simp: is_malformed_line_def has_fields_def)

section \<open>Lines that are written back as they were read\<close>

text \<open>
  Claim C7. A comment line, a line that is blank once normalised, a line whose field
  count is not 4 and a 4-field line whose key is not the requested key are each written
  to the temporary file exactly as read, and the iteration changes neither \<open>changed\<close>
  nor \<open>found\<close> nor \<open>message\<close>. The line keeps its position: in a completed pass it
  follows everything written for the lines before it and precedes everything written
  for the lines after it. A line of 5 fields is such a line, whatever its first three
  fields are.
\<close>

theorem passthrough_fidelity:
  assumes "passes_through p line \<or> length (line_fields line) = 5"
  shows "(\<forall>st. \<exists>st'. step p line st = Inr st' \<and> nf st' = nf st @ [line] \<and>
            changed st' = changed st \<and> found st' = found st \<and> message st' = message st) \<and>
         (\<forall>pre post st0 stf. loop p (pre @ line # post) st0 = Inr stf \<longrightarrow>
            (\<exists>st1 rest. loop p pre st0 = Inr st1 \<and> nf stf = nf st1 @ line # rest))"
proof -
  from assms have pt: "passes_through p line"
    using many_fields_malformed [of line] by (auto simp: passes_through_def)
  have one: "\<exists>st'. step p line st = Inr st' \<and> nf st' = nf st @ [line] \<and>
            changed st' = changed st \<and> found st' = found st \<and> message st' = message st" for st
    by (simp add: step_passthrough [OF pt])
  have pos: "\<exists>st1 rest. loop p pre st0 = Inr st1 \<and> nf stf = nf st1 @ line # rest"
    if run: "loop p (pre @ line # post) st0 = Inr stf" for pre post st0 stf
  proof -
    from run obtain st1 where a: "loop p pre st0 = Inr st1"
      and b: "loop p (line # post) st1 = Inr stf"
      by (auto simp: loop_append split: sum.splits)
    from one [of st1] obtain st2 where c: "step p line st1 = Inr st2"
      and d: "nf st2 = nf st1 @ [line]" by blast
    from b c have "loop p post st2 = Inr stf" by simp
    from loop_nf [OF this] obtain ws where "nf stf = nf st2 @ ws" ..
    with a d show ?thesis by simp
  qed
  from one pos show ?thesis by blast
qed


theorem passthrough_fidelity_witness:
  "length (line_fields five_field_line) = 5 \<and>
   (\<exists>st'. step joe_nofile five_field_line (init_locals joe_nofile) = Inr st' \<and>
          nf st' = nf (init_locals joe_nofile) @ [five_field_line] \<and>
          changed st' = changed (init_locals joe_nofile) \<and>
          found st' = found (init_locals joe_nofile) \<and>
          message st' = message (init_locals joe_nofile)) \<and>
   (\<exists>stf st1 rest.
      loop joe_nofile ([''# limits'' @ [NL]] @ five_field_line # [''* hard core 0'' @ [NL]])
        (init_locals joe_nofile) = Inr stf \<and>
      loop joe_nofile [''# limits'' @ [NL]] (init_locals joe_nofile) = Inr st1 \<and>
      nf stf = nf st1 @ five_field_line # rest)"
proof -
  have h: "length (line_fields five_field_line) = 5"
    by code_simp
  have "\<not> isl (loop joe_nofile
          ([''# limits'' @ [NL]] @ five_field_line # [''* hard core 0'' @ [NL]])
          (init_locals joe_nofile))"
    by code_simp
  then obtain stf where run:
    "loop joe_nofile ([''# limits'' @ [NL]] @ five_field_line # [''* hard core 0'' @ [NL]])
       (init_locals joe_nofile) = Inr stf"
    by (cases "loop joe_nofile
          ([''# limits'' @ [NL]] @ five_field_line # [''* hard core 0'' @ [NL]])
          (init_locals joe_nofile)") auto
  from passthrough_fidelity [of joe_nofile five_field_line] h run show ?thesis
    by blast
qed

section \<open>The value a matching line ends with\<close>

lemma found_line_new_value:
  "\<not> use_max p \<Longrightarrow> \<not> use_min p \<Longrightarrow> new_value (found_line p line a st) = new_value st"
  by (simp add: found_line_def Let_def)

lemma step_new_value:
  assumes "step p line st = Inr st'" and "\<not> use_max p" and "\<not> use_min p"
  shows "new_value st' = new_value st"
  using assms found_line_new_value [of p line _ "update_comment line st"]
  by (auto simp: step_def Let_def split: if_splits option.splits)

lemma loop_new_value:
  "loop p ls st = Inr st' \<Longrightarrow> \<not> use_max p \<Longrightarrow> \<not> use_min p \<Longrightarrow> new_value st' = new_value st"
proof (induction ls arbitrary: st)
  case Nil
  then show ?case by simp
next
  case (Cons l ls)
  from Cons.prems(1) obtain st1 where s: "step p l st = Inr st1" and r: "loop p ls st1 = Inr st'"
    by (auto split: sum.splits)
  from Cons.IH [OF r Cons.prems(2,3)] step_new_value [OF s Cons.prems(2,3)]
  show ?case by simp
qed

text \<open>
  Claim C1. At any point of the pass (after any lines \<open>pre\<close>), on a 4-field line whose
  key is the requested key and whose value \<open>actual\<close> differs from the requested value,
  the iteration leaves \<open>new_value\<close> at \<open>max value actual\<close> under \<open>use_max\<close>, at
  \<open>min value actual\<close> under \<open>use_min\<close>, and at the requested value otherwise. If that
  value differs from \<open>actual\<close>, \<open>changed\<close> becomes true and the line written (and
  reported as the message) is the requested domain, type and item and the decimal digits
  of that value, joined by tabs, followed by \<open>new_comment\<close> and a newline; if it does
  not differ, the original line is written and \<open>changed\<close> keeps its value. The two flags
  are never both set when the loop runs, since \<open>main\<close> fails before it.
\<close>

theorem policy_resulting_value:
  assumes reach: "loop p pre (init_locals p) = Inr st"
    and excl: "\<not> (use_max p \<and> use_min p)"
    and rec: "record_value line = Some actual"
    and key: "key_matches p (line_fields line)"
    and diff: "actual \<noteq> value_arg p"
  shows "\<exists>st'. step p line st = Inr st' \<and> found st' \<and>
           new_value st' =
             (if use_max p then max (value_arg p) actual
              else if use_min p then min (value_arg p) actual
              else value_arg p) \<and>
           new_comment st' = new_comment (update_comment line st) \<and>
           (if new_value st' \<noteq> actual
            then changed st' \<and>
                 nf st' = nf st @
                   [domain p @ [TAB] @ limit_type p @ [TAB] @ limit_item p @ [TAB] @
                    str_py (new_value st') @ new_comment st' @ [NL]] \<and>
                 message st' =
                   domain p @ [TAB] @ limit_type p @ [TAB] @ limit_item p @ [TAB] @
                   str_py (new_value st') @ new_comment st' @ [NL]
            else changed st' = changed st \<and> nf st' = nf st @ [line] \<and> message st' = line)"
proof -
  have nv: "\<not> use_max p \<Longrightarrow> \<not> use_min p \<Longrightarrow> new_value st = value_arg p"
    using loop_new_value [OF reach] by (simp add: init_locals_def)
  have "step p line st = Inr (found_line p line actual (update_comment line st))"
    using key by (simp add: step_record [OF rec])
  moreover have "found (found_line p line actual (update_comment line st))"
    by (simp add: found_line_def Let_def)
  ultimately show ?thesis
    using excl diff nv by (auto simp: found_line_def new_limit_def Let_def)
qed

theorem policy_resulting_value_witness:
  "\<not> (use_max keep_min_300 \<and> use_min keep_min_300) \<and>
   record_value (''joe soft nofile 500'' @ [NL]) = Some 500 \<and>
   key_matches keep_min_300 (line_fields (''joe soft nofile 500'' @ [NL])) \<and>
   (500::int) \<noteq> value_arg keep_min_300 \<and>
   (\<exists>st st'. loop keep_min_300 [''# limits'' @ [NL]] (init_locals keep_min_300) = Inr st \<and>
      step keep_min_300 (''joe soft nofile 500'' @ [NL]) st = Inr st' \<and>
      new_value st' = 300 \<and> changed st' \<and>
      nf st' = [''# limits'' @ [NL],
                ''joe'' @ [TAB] @ ''soft'' @ [TAB] @ ''nofile'' @ [TAB] @ ''300'' @ [NL]] \<and>
      message st' = ''joe'' @ [TAB] @ ''soft'' @ [TAB] @ ''nofile'' @ [TAB] @ ''300'' @ [NL])"
proof -
  have excl: "\<not> (use_max keep_min_300 \<and> use_min keep_min_300)"
    by code_simp
  have rec: "record_value (''joe soft nofile 500'' @ [NL]) = Some 500"
    by code_simp
  have key: "key_matches keep_min_300 (line_fields (''joe soft nofile 500'' @ [NL]))"
    by code_simp
  have diff: "(500::int) \<noteq> value_arg keep_min_300"
    by code_simp
  have flags: "\<not> use_max keep_min_300" "use_min keep_min_300" "value_arg keep_min_300 = 300"
    "domain keep_min_300 = ''joe''" "limit_type keep_min_300 = ''soft''"
    "limit_item keep_min_300 = ''nofile''"
    by (simp_all add: keep_min_300_def joe_nofile_def)
  have digits: "str_py 300 = ''300''"
    by code_simp
  have "map_sum id (\<lambda>s. (nf s, new_comment (update_comment (''joe soft nofile 500'' @ [NL]) s)))
          (loop keep_min_300 [''# limits'' @ [NL]] (init_locals keep_min_300)) =
        Inr ([''# limits'' @ [NL]], [])"
    by code_simp
  then obtain st where reach:
    "loop keep_min_300 [''# limits'' @ [NL]] (init_locals keep_min_300) = Inr st"
    and before: "nf st = [''# limits'' @ [NL]]"
      "new_comment (update_comment (''joe soft nofile 500'' @ [NL]) st) = []"
    by (cases "loop keep_min_300 [''# limits'' @ [NL]] (init_locals keep_min_300)") auto
  from policy_resulting_value [OF reach excl rec key diff] obtain st'
    where "step keep_min_300 (''joe soft nofile 500'' @ [NL]) st = Inr st'"
      and "new_value st' = 300" and "changed st'"
      and "nf st' = [''# limits'' @ [NL],
                ''joe'' @ [TAB] @ ''soft'' @ [TAB] @ ''nofile'' @ [TAB] @ ''300'' @ [NL]]"
      and "message st' = ''joe'' @ [TAB] @ ''soft'' @ [TAB] @ ''nofile'' @ [TAB] @ ''300'' @ [NL]"
    using flags digits before by (auto split: if_splits)
  with reach excl rec key diff show ?thesis
    by blast
qed

section \<open>Conflicting flags\<close>

text \<open>
  Claim C8. When \<open>use_max\<close> and \<open>use_min\<close> are both set, \<open>main\<close> ends in
  \<^verbatim>\<open>fail_json\<close> and leaves the file system as it found it. The message does not depend
  on the content of the file: no line of it has been read. (The message is the one about
  the flags when the file is present and writable, and the one about the file otherwise.)
\<close>

theorem conflicting_flags_rejected:
  assumes "use_max p" and "use_min p"
  shows "\<exists>msg. \<forall>text. main p (fs\<lparr>content := text\<rparr>) = (fail_json msg, fs\<lparr>content := text\<rparr>)"
proof (cases "is_file fs")
  case False
  then show ?thesis by (simp add: main_def)
next
  case True
  with assms show ?thesis by (cases "writable fs") (simp_all add: main_def)
qed

theorem conflicting_flags_rejected_witness:
  "use_max both_flags \<and> use_min both_flags \<and>
   (\<exists>msg. main both_flags (limits_conf (''joe soft nofile 500'' @ [NL])) =
           (fail_json msg, limits_conf (''joe soft nofile 500'' @ [NL])))"
proof -
  have a: "use_max both_flags" and b: "use_min both_flags"
    by (simp_all add: both_flags_def)
  from conflicting_flags_rejected [OF a b, of "limits_conf (''joe soft nofile 500'' @ [NL])"]
  obtain msg where "\<forall>text. main both_flags (limits_conf (''joe soft nofile 500'' @ [NL])\<lparr>content := text\<rparr>)
      = (fail_json msg, limits_conf (''joe soft nofile 500'' @ [NL])\<lparr>content := text\<rparr>)" ..
  then have "main both_flags (limits_conf (''joe soft nofile 500'' @ [NL])\<lparr>content := ''joe soft nofile 500'' @ [NL]\<rparr>)
      = (fail_json msg, limits_conf (''joe soft nofile 500'' @ [NL])\<lparr>content := ''joe soft nofile 500'' @ [NL]\<rparr>)" ..
  then have "main both_flags (limits_conf (''joe soft nofile 500'' @ [NL])) =
           (fail_json msg, limits_conf (''joe soft nofile 500'' @ [NL]))"
    by (simp add: limits_conf_def)
  with a b show ?thesis by blast
qed

section \<open>A value that is not an integer\<close>

lemma step_bad_value: "bad_value_line line \<Longrightarrow> step p line st = Inl ValueError"
  using sentinel_starts_with_hash [of line]
  by (auto simp: bad_value_line_def has_fields_def step_def Let_def)

lemma only_ValueError: "(e :: py_exception) = ValueError"
  by (cases e)

lemma loop_bad_value:
  "line \<in> set ls \<Longrightarrow> bad_value_line line \<Longrightarrow> loop p ls st = Inl ValueError"
proof (induction ls arbitrary: st)
  case Nil
  then show ?case by simp
next
  case (Cons l ls)
  show ?case
  proof (cases "step p l st")
    case (Inl e)
    then show ?thesis by (simp add: only_ValueError [of e])
  next
    case (Inr st1)
    with Cons.prems step_bad_value [of l p st] have "line \<in> set ls" by auto
    from Cons.IH [OF this Cons.prems(2)] Inr show ?thesis by simp
  qed
qed

text \<open>
  Claim C9. If some line of the file has 4 fields and \<^verbatim>\<open>int\<close> rejects the fourth,
  \<open>main\<close> never reaches \<^verbatim>\<open>atomic_move\<close> and \<^verbatim>\<open>exit_json\<close>: the content of the
  target file is what it was, and when the checks before the loop pass (the file is
  present and writable, the flags do not conflict) the outcome is the ValueError raised
  by \<^verbatim>\<open>int\<close>.
\<close>

theorem bad_value_aborts:
  assumes "line \<in> set (readlines (content fs))" and "bad_value_line line"
  shows "content (snd (main p fs)) = content fs \<and>
         (\<forall>c m b. fst (main p fs) \<noteq> exit_json c m b) \<and>
         (is_file fs \<and> writable fs \<and> \<not> (use_max p \<and> use_min p) \<longrightarrow>
            fst (main p fs) = raised ValueError)"
proof -
  have "reconcile p (content fs) = Inl ValueError"
    using loop_bad_value [OF assms] by (simp add: reconcile_def process_lines_def)
  then show ?thesis
    by (auto simp: main_def Let_def)
qed

theorem bad_value_aborts_witness:
  "unlimited_core \<in> set (readlines (content (limits_conf (''# limits'' @ [NL] @ unlimited_core)))) \<and>
   bad_value_line unlimited_core \<and>
   content (snd (main joe_nofile (limits_conf (''# limits'' @ [NL] @ unlimited_core)))) =
     ''# limits'' @ [NL] @ unlimited_core \<and>
   fst (main joe_nofile (limits_conf (''# limits'' @ [NL] @ unlimited_core))) = raised ValueError"
proof -
  have a: "unlimited_core \<in> set (readlines (content (limits_conf (''# limits'' @ [NL] @ unlimited_core))))"
    by code_simp
  have b: "bad_value_line unlimited_core"
    by code_simp
  have c: "is_file (limits_conf (''# limits'' @ [NL] @ unlimited_core)) \<and>
           writable (limits_conf (''# limits'' @ [NL] @ unlimited_core)) \<and>
           \<not> (use_max joe_nofile \<and> use_min joe_nofile)"
    by (simp add: limits_conf_def joe_nofile_def)
  have d: "content (limits_conf (''# limits'' @ [NL] @ unlimited_core)) = ''# limits'' @ [NL] @ unlimited_core"
    by (simp add: limits_conf_def)
  from bad_value_aborts [OF a b, of joe_nofile] a b c d show ?thesis
    by simp
qed

section \<open>The end-of-file marker\<close>

lemma step_sentinel: "is_sentinel_line line \<Longrightarrow> step p line st = Inr (st\<lparr>has_eof := True\<rparr>)"
  by (simp add: is_sentinel_line_def step_def)

lemma step_has_eof:
  assumes "\<not> is_sentinel_line line"
  shows "step p line (st\<lparr>has_eof := b\<rparr>) = map_sum id (\<lambda>s. s\<lparr>has_eof := b\<rparr>) (step p line st)"
  using assms
  by (auto simp: is_sentinel_line_def step_def Let_def found_line_def update_comment_def
      nf_write_def split: option.splits)

lemma step_keeps_has_eof:
  assumes "\<not> is_sentinel_line line" and "step p line st = Inr st'"
  shows "has_eof st' = has_eof st"
  using assms
  by (auto simp: is_sentinel_line_def step_def Let_def found_line_def split: option.splits if_splits)

lemma loop_has_eof:
  "\<forall>l \<in> set ls. \<not> is_sentinel_line l \<Longrightarrow>
   loop p ls (st\<lparr>has_eof := b\<rparr>) = map_sum id (\<lambda>s. s\<lparr>has_eof := b\<rparr>) (loop p ls st)"
proof (induction ls arbitrary: st)
  case Nil
  then show ?case by simp
next
  case (Cons l ls)
  then show ?case
    by (cases "step p l st") (simp_all add: step_has_eof)
qed

lemma loop_without_sentinels:
  "loop p ls st =
     map_sum id (\<lambda>s. s\<lparr>has_eof := has_eof st \<or> list_ex is_sentinel_line ls\<rparr>)
       (loop p (filter (\<lambda>l. \<not> is_sentinel_line l) ls) st)"
proof (induction ls arbitrary: st)
  case Nil
  then show ?case by simp
next
  case (Cons l ls)
  show ?case
  proof (cases "is_sentinel_line l")
    case True
    have "loop p (filter (\<lambda>l. \<not> is_sentinel_line l) ls) (st\<lparr>has_eof := True\<rparr>) =
          map_sum id (\<lambda>s. s\<lparr>has_eof := True\<rparr>) (loop p (filter (\<lambda>l. \<not> is_sentinel_line l) ls) st)"
      by (rule loop_has_eof) simp
    with True Cons.IH [of "st\<lparr>has_eof := True\<rparr>"] show ?thesis
      by (simp add: step_sentinel sum.map_comp comp_def)
  next
    case False
    then show ?thesis
      by (cases "step p l st") (auto simp: Cons.IH dest: step_keeps_has_eof)
  qed
qed

lemma last_new_limit: "last (new_limit p v c) = NL"
  by (simp add: new_limit_def)

lemma new_limit_not_sentinel [simp]: "new_limit p v c \<noteq> ''# End of file''"
  using last_new_limit [of p v c] by auto

lemma sentinel_not_new_limit [simp]: "''# End of file'' \<noteq> new_limit p v c"
  using new_limit_not_sentinel [of p v c] by (rule not_sym)

lemma line_not_sentinel: "\<not> startswith line ''# End of file'' \<Longrightarrow> line \<noteq> ''# End of file''"
  by auto

lemma found_line_no_sentinel:
  assumes "line \<noteq> ''# End of file''" and "''# End of file'' \<notin> set (nf st)"
  shows "''# End of file'' \<notin> set (nf (found_line p line a st))"
  using assms by (auto simp: found_line_def Let_def)

lemma step_no_sentinel:
  assumes "step p line st = Inr st'" and "''# End of file'' \<notin> set (nf st)"
  shows "''# End of file'' \<notin> set (nf st')"
proof (cases "startswith line ''# End of file''")
  case True
  with assms show ?thesis by (auto simp: step_def)
next
  case False
  then have ne: "line \<noteq> ''# End of file''" by (rule line_not_sentinel)
  from assms(2) have "''# End of file'' \<notin> set (nf (update_comment line st))" by simp
  from found_line_no_sentinel [OF ne this] assms ne False show ?thesis
    by (auto simp: step_def Let_def split: if_splits option.splits)
qed

lemma loop_no_sentinel:
  "loop p ls st = Inr st' \<Longrightarrow> ''# End of file'' \<notin> set (nf st) \<Longrightarrow>
   ''# End of file'' \<notin> set (nf st')"
proof (induction ls arbitrary: st)
  case Nil
  then show ?case by simp
next
  case (Cons l ls)
  from Cons.prems(1) obtain st1 where s: "step p l st = Inr st1" and r: "loop p ls st1 = Inr st'"
    by (auto split: sum.splits)
  from Cons.IH [OF r step_no_sentinel [OF s Cons.prems(2)]] show ?case .
qed

lemma loop_keeps_has_eof:
  "\<forall>l \<in> set ls. \<not> is_sentinel_line l \<Longrightarrow> loop p ls st = Inr st' \<Longrightarrow> has_eof st' = has_eof st"
proof (induction ls arbitrary: st)
  case Nil
  then show ?case by simp
next
  case (Cons l ls)
  from Cons.prems(2) obtain st1 where s: "step p l st = Inr st1" and r: "loop p ls st1 = Inr st'"
    by (auto split: sum.splits)
  from Cons.prems(1) have "\<not> is_sentinel_line l" and rest: "\<forall>l \<in> set ls. \<not> is_sentinel_line l"
    by simp_all
  from step_keeps_has_eof [OF this(1) s] Cons.IH [OF rest r] show ?case by simp
qed

text \<open>
  Every line that starts with \<^verbatim>\<open># End of file\<close> is consumed: a completed pass
  writes exactly what the pass over the other lines alone writes, and then, if there was
  at least one such line (wherever it stood, however many there were), one more string,
  \<^verbatim>\<open># End of file\<close> with no newline after it. None of the strings written before it
  is that marker. The flag \<open>changed\<close> and the message are those of the pass over the
  other lines.
\<close>

lemma marker_written_once:
  assumes "process_lines p ls = Inr st"
  shows "\<exists>st0. process_lines p (filter (\<lambda>l. \<not> is_sentinel_line l) ls) = Inr st0 \<and>
           ''# End of file'' \<notin> set (nf st0) \<and>
           nf st = nf st0 @ (if list_ex is_sentinel_line ls then [''# End of file''] else []) \<and>
           concat (nf st) =
             concat (nf st0) @ (if list_ex is_sentinel_line ls then ''# End of file'' else []) \<and>
           changed st = changed st0 \<and> message st = message st0"
proof -
  let ?fs = "filter (\<lambda>l. \<not> is_sentinel_line l) ls"
  from assms obtain s1 where l1: "loop p ls (init_locals p) = Inr s1" and st: "st = after_loop p s1"
    by (cases "loop p ls (init_locals p)") (auto simp: process_lines_def)
  from l1 loop_without_sentinels [of p ls "init_locals p"] obtain s0
    where l0: "loop p ?fs (init_locals p) = Inr s0"
      and s1: "s1 = s0\<lparr>has_eof := list_ex is_sentinel_line ls\<rparr>"
    by (cases "loop p ?fs (init_locals p)") (auto simp: init_locals_def)
  have e0: "\<not> has_eof s0"
    using loop_keeps_has_eof [OF _ l0] by (simp add: init_locals_def)
  have n0: "''# End of file'' \<notin> set (nf s0)"
    using loop_no_sentinel [OF l0] by (simp add: init_locals_def)
  have p0: "process_lines p ?fs = Inr (after_loop p s0)"
    by (simp add: process_lines_def l0)
  have n1: "''# End of file'' \<notin> set (nf (after_loop p s0))"
    using n0 e0 by (auto simp: after_loop_def Let_def)
  have "nf st = nf (after_loop p s0) @ (if list_ex is_sentinel_line ls then [''# End of file''] else [])"
    and "changed st = changed (after_loop p s0)" and "message st = message (after_loop p s0)"
    using e0 by (auto simp: st s1 after_loop_def Let_def)
  with p0 n1 show ?thesis by auto
qed

section \<open>The appended record and the place of the marker\<close>

lemma step_unmatched:
  assumes "\<not> matching_line p line" and "step p line st = Inr st'"
  shows "found st' = found st \<and> new_value st' = new_value st \<and> changed st' = changed st"
  using assms sentinel_starts_with_hash [of line]
  by (auto simp: matching_line_def record_value_def has_fields_def step_def Let_def
      split: if_splits option.splits)

lemma loop_unmatched:
  "\<not> list_ex (matching_line p) ls \<Longrightarrow> loop p ls st = Inr st' \<Longrightarrow>
   found st' = found st \<and> new_value st' = new_value st \<and> changed st' = changed st"
proof (induction ls arbitrary: st)
  case Nil
  then show ?case by simp
next
  case (Cons l ls)
  from Cons.prems(2) obtain st1 where s: "step p l st = Inr st1" and r: "loop p ls st1 = Inr st'"
    by (auto split: sum.splits)
  from Cons.prems(1) have a: "\<not> matching_line p l" and b: "\<not> list_ex (matching_line p) ls"
    by simp_all
  from step_unmatched [OF a s] Cons.IH [OF b r] show ?case by simp
qed

text \<open>
  When no line of the file is taken for the requested record, a completed pass sets
  \<open>changed\<close> and ends by writing one new record with the requested value, before the
  marker if there is one. The comment \<open>c\<close> in that record is whatever the loop has left
  in \<open>new_comment\<close>.
\<close>

lemma absent_key_appended:
  assumes "process_lines p ls = Inr st" and "\<not> list_ex (matching_line p) ls"
  shows "changed st \<and>
         (\<exists>body c. nf st = body @ [new_limit p (value_arg p) c] @
                      (if list_ex is_sentinel_line ls then [''# End of file''] else []) \<and>
                    message st = new_limit p (value_arg p) c)"
proof -
  from assms(1) obtain s1 where l1: "loop p ls (init_locals p) = Inr s1"
    and st: "st = after_loop p s1"
    by (cases "loop p ls (init_locals p)") (auto simp: process_lines_def)
  from loop_unmatched [OF assms(2) l1]
  have nf1: "\<not> found s1" and nv: "new_value s1 = value_arg p"
    by (simp_all add: init_locals_def)
  from loop_without_sentinels [of p ls "init_locals p"] l1
  have he: "has_eof s1 = list_ex is_sentinel_line ls"
    by (cases "loop p (filter (\<lambda>l. \<not> is_sentinel_line l) ls) (init_locals p)")
       (auto simp: init_locals_def)
  show ?thesis
    using nf1 nv he by (auto simp: st after_loop_def Let_def)
qed

lemma readlines_Nil_iff [simp]: "readlines s = [] \<longleftrightarrow> s = []"
  by (cases s) (auto split: list.splits)

lemma readlines_one_line: "t \<noteq> [] \<Longrightarrow> NL \<notin> set t \<Longrightarrow> readlines t = [t]"
proof (induction t)
  case Nil
  then show ?case by simp
next
  case (Cons c t)
  then show ?case by (cases "t = []") auto
qed

lemma readlines_snoc_line:
  assumes "s = [] \<or> last s = NL" and "t \<noteq> []" and "NL \<notin> set t"
  shows "readlines (s @ t) = readlines s @ [t]"
  using assms(1)
proof (induction s)
  case Nil
  show ?case by (simp add: readlines_one_line [OF assms(2,3)])
next
  case (Cons c cs)
  show ?case
  proof (cases "c = NL")
    case True
    from Cons.prems have "cs = [] \<or> last cs = NL" by (auto split: if_splits)
    with Cons.IH True show ?thesis by simp
  next
    case False
    with Cons.prems have ne: "cs \<noteq> []" and "last cs = NL" by (auto split: if_splits)
    with Cons.IH have ih: "readlines (cs @ t) = readlines cs @ [t]" by simp
    from ne obtain l ls where "readlines cs = l # ls"
      by (cases "readlines cs") auto
    with ih False show ?thesis by simp
  qed
qed

lemma new_limit_terminated: "terminated (new_limit p v c)"
  by (simp add: terminated_def new_limit_def)

lemma found_line_terminated:
  assumes "terminated line" and "\<forall>w \<in> set (nf st). terminated w"
  shows "\<forall>w \<in> set (nf (found_line p line a st)). terminated w"
  using assms new_limit_terminated [of p] by (auto simp: found_line_def Let_def)

lemma step_terminated:
  assumes "step p line st = Inr st'" and "\<not> is_sentinel_line line \<longrightarrow> terminated line"
    and "\<forall>w \<in> set (nf st). terminated w"
  shows "\<forall>w \<in> set (nf st'). terminated w"
proof (cases "is_sentinel_line line")
  case True
  with assms show ?thesis by (auto simp: step_sentinel)
next
  case False
  with assms(2) have t: "terminated line" by simp
  from assms(3) have "\<forall>w \<in> set (nf (update_comment line st)). terminated w" by simp
  from found_line_terminated [OF t this] assms(1,3) t show ?thesis
    by (auto simp: step_def Let_def split: if_splits option.splits)
qed

lemma loop_terminated:
  "loop p ls st = Inr st' \<Longrightarrow> \<forall>l \<in> set ls. \<not> is_sentinel_line l \<longrightarrow> terminated l \<Longrightarrow>
   \<forall>w \<in> set (nf st). terminated w \<Longrightarrow> \<forall>w \<in> set (nf st'). terminated w"
proof (induction ls arbitrary: st)
  case Nil
  then show ?case by simp
next
  case (Cons l ls)
  from Cons.prems(1) obtain st1 where s: "step p l st = Inr st1" and r: "loop p ls st1 = Inr st'"
    by (auto split: sum.splits)
  from Cons.prems(2) have a: "\<not> is_sentinel_line l \<longrightarrow> terminated l"
    and b: "\<forall>l \<in> set ls. \<not> is_sentinel_line l \<longrightarrow> terminated l" by simp_all
  from Cons.IH [OF r b step_terminated [OF s a Cons.prems(3)]] show ?case .
qed

lemma concat_terminated:
  "\<forall>w \<in> set ws. terminated w \<Longrightarrow> concat ws = [] \<or> last (concat ws) = NL"
  by (induction ws rule: rev_induct) (auto simp: terminated_def)

text \<open>
  When every line other than a marker line ends in a newline, everything written before
  the marker ends in a newline, and the marker is the last line of the output.
\<close>

lemma sentinel_is_last_line:
  assumes run: "process_lines p ls = Inr st"
    and ex: "list_ex is_sentinel_line ls"
    and nl: "\<forall>l \<in> set ls. \<not> is_sentinel_line l \<longrightarrow> terminated l"
  shows "last (readlines (concat (nf st))) = ''# End of file''"
proof -
  from run obtain s1 where l1: "loop p ls (init_locals p) = Inr s1"
    and st: "st = after_loop p s1"
    by (cases "loop p ls (init_locals p)") (auto simp: process_lines_def)
  from loop_without_sentinels [of p ls "init_locals p"] l1 ex
  have he: "has_eof s1"
    by (cases "loop p (filter (\<lambda>l. \<not> is_sentinel_line l) ls) (init_locals p)")
       (auto simp: init_locals_def)
  have "\<forall>w \<in> set (nf s1). terminated w"
    using loop_terminated [OF l1 nl] by (simp add: init_locals_def)
  moreover define body where
    "body = (if found s1 then nf s1 else nf s1 @ [new_limit p (new_value s1) (new_comment s1)])"
  ultimately have body: "\<forall>w \<in> set body. terminated w"
    using new_limit_terminated [of p] by auto
  have nf: "nf st = body @ [''# End of file'']"
    using he by (simp add: st body_def after_loop_def Let_def)
  from concat_terminated [OF body]
  have "readlines (concat body @ ''# End of file'') = readlines (concat body) @ [''# End of file'']"
    by (rule readlines_snoc_line) simp_all
  then show ?thesis by (simp add: nf)
qed

section \<open>The lines of the output that start with the marker\<close>

lemma readlines_gives_lines: "l \<in> set (readlines s) \<Longrightarrow> one_line l"
proof (induction s arbitrary: l)
  case Nil
  then show ?case by simp
next
  case (Cons c cs)
  show ?case
  proof (cases "c = NL")
    case True
    with Cons show ?thesis by (auto simp: one_line_def)
  next
    case False
    show ?thesis
    proof (cases "readlines cs")
      case Nil
      with False Cons.prems show ?thesis by (simp add: one_line_def)
    next
      case (Cons x xs)
      with Cons.IH have "one_line x" and "\<And>y. y \<in> set xs \<Longrightarrow> one_line y" by simp_all
      with False Cons Cons.prems show ?thesis by (auto simp: one_line_def)
    qed
  qed
qed

lemma readlines_of_line: "one_line l \<Longrightarrow> readlines l = [l]"
proof (induction l)
  case Nil
  then show ?case by (simp add: one_line_def)
next
  case (Cons c r)
  show ?case
  proof (cases "r = []")
    case True
    then show ?thesis by simp
  next
    case False
    with Cons.prems have "c \<noteq> NL" and "one_line r" by (auto simp: one_line_def)
    with Cons.IH show ?thesis by simp
  qed
qed

lemma readlines_append:
  assumes "s = [] \<or> last s = NL"
  shows "readlines (s @ t) = readlines s @ readlines t"
  using assms
proof (induction s)
  case Nil
  show ?case by simp
next
  case (Cons c cs)
  show ?case
  proof (cases "c = NL")
    case True
    from Cons.prems have "cs = [] \<or> last cs = NL" by (auto split: if_splits)
    with Cons.IH True show ?thesis by simp
  next
    case False
    with Cons.prems have ne: "cs \<noteq> []" and "last cs = NL" by (auto split: if_splits)
    with Cons.IH have ih: "readlines (cs @ t) = readlines cs @ readlines t" by simp
    from ne obtain l ls where "readlines cs = l # ls"
      by (cases "readlines cs") auto
    with ih False show ?thesis by simp
  qed
qed

lemma readlines_concat:
  "\<forall>w \<in> set ws. terminated w \<Longrightarrow>
   readlines (concat ws @ t) = concat (map readlines ws) @ readlines t"
proof (induction ws)
  case Nil
  show ?case by simp
next
  case (Cons w ws)
  then have "last w = NL" by (simp add: terminated_def)
  then have "readlines (w @ (concat ws @ t)) = readlines w @ readlines (concat ws @ t)"
    by (intro readlines_append) simp
  with Cons show ?case by simp
qed


lemma startswith_before_tab:
  "startswith (d @ TAB # r) P \<Longrightarrow> TAB \<notin> set P \<Longrightarrow> startswith d P"
proof (induction d arbitrary: P)
  case Nil
  then show ?case by (cases P) auto
next
  case (Cons c d)
  then show ?case by (cases P) auto
qed

lemma not_marker_before_tab:
  "\<not> is_sentinel_line d \<Longrightarrow> \<not> is_sentinel_line (d @ TAB # r)"
  unfolding is_sentinel_line_def
  using startswith_before_tab [of d r "''# End of file''"] by auto

lemma digit_char_not_NL:
  assumes "0 \<le> d" and "d < 10"
  shows "char_of (48 + d :: int) \<noteq> NL"
proof
  assume "char_of (48 + d) = NL"
  then have "(of_char (char_of (48 + d)) :: int) = of_char NL" by simp
  then have "(48 + d) mod 256 = 10" by simp
  with assms show False by simp
qed

lemma str_digits_no_NL: "0 \<le> n \<Longrightarrow> NL \<notin> set (str_digits n)"
proof (induction n rule: str_digits.induct)
  case (1 n)
  show ?case
  proof (cases "n < 10")
    case True
    with "1.prems" digit_char_not_NL [of n] show ?thesis
      by (subst str_digits.simps) auto
  next
    case False
    with "1.prems" have "0 \<le> n div 10" by simp
    with "1.IH" False have "NL \<notin> set (str_digits (n div 10))" by simp
    moreover have "char_of (48 + n mod 10) \<noteq> NL"
      by (rule digit_char_not_NL) simp_all
    ultimately show ?thesis using False
      by (subst str_digits.simps) auto
  qed
qed

lemma str_py_no_NL: "NL \<notin> set (str_py v)"
  by (simp add: str_py_def str_digits_no_NL)

lemma choices_no_NL:
  assumes "argument_spec p"
  shows "NL \<notin> set (limit_type p)" and "NL \<notin> set (limit_item p)"
  using assms by (auto simp: argument_spec_def pam_types_def pam_items_def)

lemma clean_line: "one_line l \<Longrightarrow> terminated l \<Longrightarrow> \<not> is_sentinel_line l \<Longrightarrow> clean l"
  by (simp add: clean_def readlines_of_line)

lemma clean_new_limit:
  assumes ok: "record_header_ok p" and c: "NL \<notin> set (butlast c)"
  shows "clean (new_limit p v c)"
proof -
  define h where "h = limit_type p @ [TAB] @ limit_item p @ [TAB] @ str_py v"
  have h: "NL \<notin> set h"
    using ok choices_no_NL [of p] by (simp add: h_def record_header_ok_def str_py_no_NL)
  have d: "NL \<notin> set (domain p)" and m: "\<not> is_sentinel_line (domain p)"
    using ok by (simp_all add: record_header_ok_def)
  have eq: "new_limit p v c = domain p @ TAB # h @ c @ [NL]"
    by (simp add: new_limit_def h_def)
  show ?thesis
  proof (cases "NL \<in> set c")
    case False
    with h d have "one_line (domain p @ TAB # h @ c @ [NL])"
      by (simp add: one_line_def butlast_append)
    then have "readlines (new_limit p v c) = [domain p @ TAB # h @ c @ [NL]]"
      by (simp add: eq readlines_of_line)
    with m show ?thesis
      by (simp add: clean_def new_limit_terminated not_marker_before_tab)
  next
    case True
    then have ne: "c \<noteq> []" by auto
    with True c have "last c = NL"
      by (metis append_butlast_last_id Un_iff set_append empty_iff empty_set set_ConsD)
    with ne have c': "c = butlast c @ [NL]" by (metis append_butlast_last_id)
    define s where "s = domain p @ TAB # h @ butlast c @ [NL]"
    have "one_line s"
      using h d c by (simp add: s_def one_line_def butlast_append)
    then have rs: "readlines s = [s]" by (rule readlines_of_line)
    have "new_limit p v c = s @ [NL]"
      using c' by (simp add: eq s_def)
    moreover have "readlines (s @ [NL]) = readlines s @ readlines [NL]"
      by (rule readlines_append) (simp add: s_def)
    ultimately have "readlines (new_limit p v c) = [s, [NL]]"
      using rs by simp
    moreover have "\<not> is_sentinel_line s"
      unfolding s_def using m by (rule not_marker_before_tab)
    moreover have "\<not> is_sentinel_line [NL]"
      by (simp add: is_sentinel_line_def)
    ultimately show ?thesis
      by (simp add: clean_def new_limit_terminated)
  qed
qed


lemma butlast_suffix_no_NL: "NL \<notin> set (butlast (xs @ ys)) \<Longrightarrow> NL \<notin> set (butlast ys)"
  by (simp add: butlast_append split: if_splits)

lemma after_hash_no_NL:
  assumes "one_line l"
  shows "NL \<notin> set (butlast (after_hash l))"
proof (cases "dropWhile (\<lambda>c. c \<noteq> CHR ''#'') l")
  case Nil
  show ?thesis unfolding after_hash_def Nil by simp
next
  case (Cons h r)
  have "l = (takeWhile (\<lambda>c. c \<noteq> CHR ''#'') l @ [h]) @ r"
    using Cons takeWhile_dropWhile_id [of "\<lambda>c. c \<noteq> CHR ''#''" l] by simp
  with assms have "NL \<notin> set (butlast ((takeWhile (\<lambda>c. c \<noteq> CHR ''#'') l @ [h]) @ r))"
    by (simp add: one_line_def)
  then have "NL \<notin> set (butlast r)" by (rule butlast_suffix_no_NL)
  then show ?thesis unfolding after_hash_def Cons by simp
qed

lemma update_comment_no_NL:
  assumes "one_line l" and "NL \<notin> set (butlast (new_comment st))"
  shows "NL \<notin> set (butlast (new_comment (update_comment l st)))"
  using assms after_hash_no_NL [OF assms(1)]
  by (auto simp: update_comment_def old_comment_def Let_def)

lemma found_line_shape:
  "\<exists>w. nf (found_line p l a st) = nf st @ [w] \<and>
       (w = l \<or> (\<exists>v. w = new_limit p v (new_comment st))) \<and>
       new_comment (found_line p l a st) = new_comment st"
  by (auto simp: found_line_def Let_def)

lemma step_well_written:
  assumes s: "step p l st = Inr st'" and ok: "record_header_ok p"
    and l: "one_line l" and t: "\<not> is_sentinel_line l \<longrightarrow> terminated l"
    and inv: "well_written st"
  shows "well_written st'"
proof (cases "is_sentinel_line l")
  case True
  with s inv show ?thesis by (auto simp: step_sentinel well_written_def)
next
  case False
  with l t have cl: "clean l" by (simp add: clean_line)
  let ?st1 = "update_comment l st"
  have c1: "NL \<notin> set (butlast (new_comment ?st1))"
    using inv update_comment_no_NL [OF l] by (simp add: well_written_def)
  have w1: "well_written ?st1"
    using inv c1 by (simp add: well_written_def)
  have w2: "well_written (nf_write l ?st1)" and w3: "well_written (nf_write l st)"
    using inv c1 cl by (simp_all add: well_written_def)
  have w4: "well_written (found_line p l a ?st1)" for a
  proof -
    from found_line_shape [of p l a ?st1] obtain w
      where nf: "nf (found_line p l a ?st1) = nf ?st1 @ [w]"
        and w: "w = l \<or> (\<exists>v. w = new_limit p v (new_comment ?st1))"
        and nc: "new_comment (found_line p l a ?st1) = new_comment ?st1"
      by blast
    from w cl clean_new_limit [OF ok c1] have "clean w" by auto
    with nf nc c1 inv show ?thesis by (simp add: well_written_def)
  qed
  from s False w2 w3 w4 show ?thesis
    by (auto simp: step_def is_sentinel_line_def Let_def split: if_splits option.splits)
qed

lemma loop_well_written:
  "loop p ls st = Inr st' \<Longrightarrow> record_header_ok p \<Longrightarrow>
   \<forall>l \<in> set ls. one_line l \<and> (\<not> is_sentinel_line l \<longrightarrow> terminated l) \<Longrightarrow>
   well_written st \<Longrightarrow> well_written st'"
proof (induction ls arbitrary: st)
  case Nil
  then show ?case by simp
next
  case (Cons l ls)
  from Cons.prems(1) obtain st1 where s: "step p l st = Inr st1" and r: "loop p ls st1 = Inr st'"
    by (auto split: sum.splits)
  from Cons.prems(3) have a: "one_line l" and b: "\<not> is_sentinel_line l \<longrightarrow> terminated l"
    and c: "\<forall>l \<in> set ls. one_line l \<and> (\<not> is_sentinel_line l \<longrightarrow> terminated l)"
    by simp_all
  from step_well_written [OF s Cons.prems(2) a b Cons.prems(4)] have "well_written st1" .
  from Cons.IH [OF r Cons.prems(2) c this] show ?case .
qed

lemma process_lines_well_written:
  assumes run: "process_lines p ls = Inr st" and ok: "record_header_ok p"
    and com: "NL \<notin> set (comment p)"
    and ls: "\<forall>l \<in> set ls. one_line l \<and> \<not> is_sentinel_line l \<and> terminated l"
  shows "list_all clean (nf st)"
proof -
  from run obtain s1 where l1: "loop p ls (init_locals p) = Inr s1"
    and st: "st = after_loop p s1"
    by (cases "loop p ls (init_locals p)") (auto simp: process_lines_def)
  have "well_written (init_locals p)"
    using com by (auto simp: well_written_def init_locals_def dest: in_set_butlastD)
  with loop_well_written [OF l1 ok] ls have w: "well_written s1" by auto
  have "\<not> has_eof s1"
    using loop_keeps_has_eof [OF _ l1] ls by (simp add: init_locals_def)
  with w clean_new_limit [OF ok, of "new_comment s1"] show ?thesis
    by (auto simp: st after_loop_def Let_def well_written_def)
qed

lemma lines_of_clean_writes:
  "list_all clean ws \<Longrightarrow> \<not> list_ex is_sentinel_line (concat (map readlines ws))"
  by (induction ws) (auto simp: clean_def list_ex_iff)


text \<open>
  Counted as lines of the output that start with \<^verbatim>\<open># End of file\<close>, the marker can
  occur twice. The request names the domain \<^verbatim>\<open># End of file\<close> and the file is the one
  line \<^verbatim>\<open># End of file\<close>: the marker line is consumed, no line has the requested key,
  the appended record starts with the requested domain, and the marker follows it.
\<close>

theorem marker_line_twice_counterexample:
  "main marker_domain (limits_conf (''# End of file'' @ [NL])) =
     (exit_json True
        (''# End of file'' @ [TAB] @ ''soft'' @ [TAB] @ ''nofile'' @ [TAB] @ ''64000'' @ [NL])
        False,
      limits_conf
        (''# End of file'' @ [TAB] @ ''soft'' @ [TAB] @ ''nofile'' @ [TAB] @ ''64000'' @ [NL] @
         ''# End of file'')) \<and>
   filter is_sentinel_line
     (readlines
        (''# End of file'' @ [TAB] @ ''soft'' @ [TAB] @ ''nofile'' @ [TAB] @ ''64000'' @ [NL] @
         ''# End of file'')) =
     [''# End of file'' @ [TAB] @ ''soft'' @ [TAB] @ ''nofile'' @ [TAB] @ ''64000'' @ [NL],
      ''# End of file'']"
proof -
  have "main marker_domain (limits_conf (''# End of file'' @ [NL])) =
     (exit_json True
        (''# End of file'' @ [TAB] @ ''soft'' @ [TAB] @ ''nofile'' @ [TAB] @ ''64000'' @ [NL])
        False,
      limits_conf
        (''# End of file'' @ [TAB] @ ''soft'' @ [TAB] @ ''nofile'' @ [TAB] @ ''64000'' @ [NL] @
         ''# End of file''))"
    by code_simp
  moreover have "filter is_sentinel_line
     (readlines
        (''# End of file'' @ [TAB] @ ''soft'' @ [TAB] @ ''nofile'' @ [TAB] @ ''64000'' @ [NL] @
         ''# End of file'')) =
     [''# End of file'' @ [TAB] @ ''soft'' @ [TAB] @ ''nofile'' @ [TAB] @ ''64000'' @ [NL],
      ''# End of file'']"
    by code_simp
  ultimately show ?thesis ..
qed

text \<open>
  Claim C10, as amended. Take a file in which every line that does not start with
  \<^verbatim>\<open># End of file\<close> ends in a newline, and a request whose \<open>limit_type\<close> and
  \<open>limit_item\<close> are among the choices, whose domain and comment contain no newline and
  whose domain does not start with \<^verbatim>\<open># End of file\<close>. In a completed run every line
  that starts with \<^verbatim>\<open># End of file\<close> is consumed: the lines of the output are the
  lines of the output of the run over the other lines alone, none of which starts with
  \<^verbatim>\<open># End of file\<close>, followed, if there was at least one such line (wherever it
  stood, however many there were), by the single last line \<^verbatim>\<open># End of file\<close> with no
  newline after it.
\<close>

theorem marker_is_the_only_marker_line:
  assumes run: "reconcile p text = Inr st"
    and args: "argument_spec p"
    and dom: "\<not> is_sentinel_line (domain p)" "NL \<notin> set (domain p)"
    and com: "NL \<notin> set (comment p)"
    and ends: "\<forall>l \<in> set (readlines text). \<not> is_sentinel_line l \<longrightarrow> terminated l"
  shows "\<exists>st0. process_lines p (filter (\<lambda>l. \<not> is_sentinel_line l) (readlines text)) = Inr st0 \<and>
           nf st = nf st0 @
             (if list_ex is_sentinel_line (readlines text) then [''# End of file''] else []) \<and>
           readlines (concat (nf st)) = readlines (concat (nf st0)) @
             (if list_ex is_sentinel_line (readlines text) then [''# End of file''] else []) \<and>
           \<not> list_ex is_sentinel_line (readlines (concat (nf st0))) \<and>
           changed st = changed st0 \<and> message st = message st0"
proof -
  let ?ls = "readlines text"
  let ?fs = "filter (\<lambda>l. \<not> is_sentinel_line l) ?ls"
  let ?m = "if list_ex is_sentinel_line ?ls then [''# End of file''] else []"
  from run have "process_lines p ?ls = Inr st" by (simp add: reconcile_def)
  from marker_written_once [OF this] obtain st0
    where r0: "process_lines p ?fs = Inr st0"
      and nf: "nf st = nf st0 @ ?m"
      and same: "changed st = changed st0" "message st = message st0"
    by blast
  have ok: "record_header_ok p"
    using args dom by (simp add: record_header_ok_def)
  have "\<forall>l \<in> set ?fs. one_line l \<and> \<not> is_sentinel_line l \<and> terminated l"
    using ends readlines_gives_lines [of _ "text"] by auto
  from process_lines_well_written [OF r0 ok com this] have cl: "list_all clean (nf st0)" .
  then have tm: "\<forall>w \<in> set (nf st0). terminated w"
    by (auto simp: list_all_iff clean_def)
  have body: "readlines (concat (nf st0)) = concat (map readlines (nf st0))"
    using readlines_concat [OF tm, of "[]"] by simp
  have m: "readlines ''# End of file'' = [''# End of file'']"
    by (rule readlines_of_line) (simp add: one_line_def)
  have "readlines (concat (nf st0) @ concat ?m) = readlines (concat (nf st0)) @ ?m"
    using readlines_concat [OF tm, of "concat ?m"] body m by simp
  then have lines: "readlines (concat (nf st)) = readlines (concat (nf st0)) @ ?m"
    by (simp add: nf)
  have "\<not> list_ex is_sentinel_line (readlines (concat (nf st0)))"
    using lines_of_clean_writes [OF cl] body by simp
  with r0 nf lines same show ?thesis by blast
qed

theorem marker_is_the_only_marker_line_witness:
  "argument_spec joe_nofile \<and>
   \<not> is_sentinel_line (domain joe_nofile) \<and> NL \<notin> set (domain joe_nofile) \<and>
   NL \<notin> set (comment joe_nofile) \<and>
   list_all (\<lambda>l. is_sentinel_line l \<or> terminated l) (readlines two_sentinels_file) \<and>
   (\<exists>st st0. reconcile joe_nofile two_sentinels_file = Inr st \<and>
      process_lines joe_nofile
        (filter (\<lambda>l. \<not> is_sentinel_line l) (readlines two_sentinels_file)) = Inr st0 \<and>
      readlines (concat (nf st)) = readlines (concat (nf st0)) @ [''# End of file''] \<and>
      \<not> list_ex is_sentinel_line (readlines (concat (nf st0))) \<and>
      readlines (concat (nf st)) =
        [''joe'' @ [TAB] @ ''soft'' @ [TAB] @ ''nofile'' @ [TAB] @ ''64000'' @ [NL],
         ''* hard core 0'' @ [NL], ''# End of file''])"
proof -
  have args: "argument_spec joe_nofile"
    by code_simp
  have dom: "\<not> is_sentinel_line (domain joe_nofile)" "NL \<notin> set (domain joe_nofile)"
    by code_simp+
  have com: "NL \<notin> set (comment joe_nofile)"
    by code_simp
  have tl: "list_all (\<lambda>l. is_sentinel_line l \<or> terminated l) (readlines two_sentinels_file)"
    by code_simp
  then have ends: "\<forall>l \<in> set (readlines two_sentinels_file). \<not> is_sentinel_line l \<longrightarrow> terminated l"
    by (auto simp: list_all_iff)
  have ex: "list_ex is_sentinel_line (readlines two_sentinels_file)"
    by code_simp
  have "map_sum id (\<lambda>s. readlines (concat (nf s))) (reconcile joe_nofile two_sentinels_file) =
        Inr [''joe'' @ [TAB] @ ''soft'' @ [TAB] @ ''nofile'' @ [TAB] @ ''64000'' @ [NL],
             ''* hard core 0'' @ [NL], ''# End of file'']"
    by code_simp
  then obtain st where run: "reconcile joe_nofile two_sentinels_file = Inr st"
    and out: "readlines (concat (nf st)) =
        [''joe'' @ [TAB] @ ''soft'' @ [TAB] @ ''nofile'' @ [TAB] @ ''64000'' @ [NL],
         ''* hard core 0'' @ [NL], ''# End of file'']"
    by (cases "reconcile joe_nofile two_sentinels_file") auto
  from marker_is_the_only_marker_line [OF run args dom com ends] ex obtain st0
    where "process_lines joe_nofile
        (filter (\<lambda>l. \<not> is_sentinel_line l) (readlines two_sentinels_file)) = Inr st0"
      and "readlines (concat (nf st)) = readlines (concat (nf st0)) @ [''# End of file'']"
      and "\<not> list_ex is_sentinel_line (readlines (concat (nf st0)))"
    by auto
  with args dom com tl run out show ?thesis
    by blast
qed

section \<open>Runs on which the module departs from its specification\<close>

text \<open>
  Claim C3 (idempotence) fails on a file whose last line has no newline. The file holds
  the single line \<^verbatim>\<open>root hard core 0\<close>, unterminated, and the request is for
  \<^verbatim>\<open>joe soft nofile 64000\<close>. The first run writes the last line back as it is and
  appends the new record directly behind it, on the same line. The second run reads that
  line as one line of 7 fields, does not find the key, reports \<open>changed\<close> again and
  appends the record a second time.
\<close>

theorem unterminated_last_line_not_idempotent:
  "main joe_nofile (limits_conf ''root hard core 0'') =
     (exit_json True (joe_line []) False, limits_conf (''root hard core 0'' @ joe_line [])) \<and>
   main joe_nofile (limits_conf (''root hard core 0'' @ joe_line [])) =
     (exit_json True (joe_line []) False,
      limits_conf (''root hard core 0'' @ joe_line [] @ joe_line []))"
proof -
  have "main joe_nofile (limits_conf ''root hard core 0'') =
     (exit_json True (joe_line []) False, limits_conf (''root hard core 0'' @ joe_line []))"
    by code_simp
  moreover have "main joe_nofile (limits_conf (''root hard core 0'' @ joe_line [])) =
     (exit_json True (joe_line []) False,
      limits_conf (''root hard core 0'' @ joe_line [] @ joe_line []))"
    by code_simp
  ultimately show ?thesis ..
qed

text \<open>
  Claim C4 (the comment of a rewritten line) fails because \<open>new_comment\<close> is carried
  from one iteration to the next. No comment is requested; the first line is another
  record with a trailing comment, the second line is the requested record, with no
  comment of its own and an old value. The rewritten second line carries the first
  line's comment, behind two \<^verbatim>\<open>\t#\<close> prefixes, and that comment's newline, so that an
  empty line follows it.
\<close>

theorem rewritten_line_takes_earlier_comment:
  "main joe_nofile
     (limits_conf (''root hard core 0 # no cores'' @ [NL] @ ''joe soft nofile 500'' @ [NL])) =
   (exit_json True (joe_line ([TAB] @ ''#'' @ [TAB] @ ''# no cores'' @ [NL])) False,
    limits_conf (''root hard core 0 # no cores'' @ [NL] @
                 joe_line ([TAB] @ ''#'' @ [TAB] @ ''# no cores'' @ [NL])))"
  by code_simp

text \<open>
  Claim C5 (the appended record) fails for the same reason. No comment is requested and
  the key is absent from the file; the record appended after the loop carries the comment
  of the only line of the file instead of no comment.
\<close>

theorem appended_line_takes_earlier_comment:
  "main joe_nofile (limits_conf (''root hard core 0 # no cores'' @ [NL])) =
   (exit_json True (joe_line ([TAB] @ ''# no cores'' @ [NL])) False,
    limits_conf (''root hard core 0 # no cores'' @ [NL] @
                 joe_line ([TAB] @ ''# no cores'' @ [NL])))"
  by code_simp

text \<open>
  Claim C6 (the marker is the last line) fails when a marker line is followed by a last
  line with no newline. The requested record is already in the file, so nothing is
  appended; the marker is written directly behind the unterminated line, and the output
  is one line, which does not start with the marker.
\<close>

theorem sentinel_glued_to_last_line:
  "main joe_nofile (limits_conf (''# End of file'' @ [NL] @ ''joe soft nofile 64000'')) =
     (exit_json False ''joe soft nofile 64000'' False,
      limits_conf ''joe soft nofile 64000# End of file'') \<and>
   readlines ''joe soft nofile 64000# End of file'' = [''joe soft nofile 64000# End of file''] \<and>
   \<not> is_sentinel_line ''joe soft nofile 64000# End of file''"
proof -
  have "main joe_nofile (limits_conf (''# End of file'' @ [NL] @ ''joe soft nofile 64000'')) =
     (exit_json False ''joe soft nofile 64000'' False,
      limits_conf ''joe soft nofile 64000# End of file'')"
    by code_simp
  moreover have "readlines ''joe soft nofile 64000# End of file'' =
      [''joe soft nofile 64000# End of file'']"
    by code_simp
  moreover have "\<not> is_sentinel_line ''joe soft nofile 64000# End of file''"
    by code_simp
  ultimately show ?thesis by blast
qed

end
